theory Spec2Isabelle
  imports Main "HOL-Library.Char_ord"
begin

section \<open>Characters and strings\<close>

text \<open>
  Strings are lists of 8-bit characters. The character classes below are the ones the
  regular expressions of \<^verbatim>\<open>redaction.ts\<close> use. \<^verbatim>\<open>\s\<close> is the ECMAScript white
  space class restricted to code units below 256: TAB, LF, VT, FF, CR, SPACE and NBSP.
\<close>

definition is_digit :: "char \<Rightarrow> bool" where
  "is_digit c = (CHR ''0'' \<le> c \<and> c \<le> CHR ''9'')"

definition is_upper :: "char \<Rightarrow> bool" where
  "is_upper c = (CHR ''A'' \<le> c \<and> c \<le> CHR ''Z'')"

definition is_lower :: "char \<Rightarrow> bool" where
  "is_lower c = (CHR ''a'' \<le> c \<and> c \<le> CHR ''z'')"

definition is_alpha :: "char \<Rightarrow> bool" where
  "is_alpha c = (is_upper c \<or> is_lower c)"

definition is_space :: "char \<Rightarrow> bool" where
  "is_space c =
     (c \<in> set [CHR 0x09, CHR 0x0A, CHR 0x0B, CHR 0x0C, CHR 0x0D, CHR 0x20, CHR 0xA0])"

definition lower_char :: "char \<Rightarrow> char" where
  "lower_char c = (if is_upper c then char_of (of_char c + (32::nat)) else c)"

text \<open>\<^verbatim>\<open>String.prototype.toLowerCase\<close> on the letters A to Z.\<close>

definition toLowerCase :: "string \<Rightarrow> string" where
  "toLowerCase s = map lower_char s"

section \<open>Regular expressions and global replacement\<close>

text \<open>
  The fragment of ECMAScript regular expressions that the source uses: a character class,
  a greedy bounded repetition of a character class (\<^verbatim>\<open>*\<close>, \<^verbatim>\<open>+\<close>, \<^verbatim>\<open>?\<close>,
  \<^verbatim>\<open>{m,n}\<close>), sequence, ordered alternative and capture group.
\<close>

datatype rx =
    Cls "char \<Rightarrow> bool"
  | Rep "char \<Rightarrow> bool" nat "nat option"
  | Eps
  | Seq rx rx
  | Alt rx rx
  | Grp rx

text \<open>
  \<open>rep P lo hi s\<close> lists what is left of \<open>s\<close> after each admissible run of characters
  in \<open>P\<close>, the longest run first: the order in which a backtracking matcher tries them.
\<close>

fun rep :: "(char \<Rightarrow> bool) \<Rightarrow> nat \<Rightarrow> nat option \<Rightarrow> string \<Rightarrow> string list" where
  "rep P lo hi [] = (if lo = 0 then [[]] else [])"
| "rep P lo hi (c # cs) =
     (if P c \<and> hi \<noteq> Some 0
      then rep P (lo - 1) (map_option (\<lambda>h. h - 1) hi) cs @ (if lo = 0 then [c # cs] else [])
      else (if lo = 0 then [c # cs] else []))"

text \<open>
  \<open>ms r s caps\<close> lists every way \<open>r\<close> matches a prefix of \<open>s\<close>, in the matcher's order
  of preference, as the rest of the input and the captures made so far. The head of the
  list is the match that \<^verbatim>\<open>RegExp.prototype.exec\<close> reports at this position.
\<close>

fun ms :: "rx \<Rightarrow> string \<Rightarrow> string list \<Rightarrow> (string \<times> string list) list" where
  "ms (Cls P) s caps = (case s of [] \<Rightarrow> [] | c # cs \<Rightarrow> if P c then [(cs, caps)] else [])"
| "ms (Rep P lo hi) s caps = map (\<lambda>r. (r, caps)) (rep P lo hi s)"
| "ms Eps s caps = [(s, caps)]"
| "ms (Seq a b) s caps = concat (map (\<lambda>(s', caps'). ms b s' caps') (ms a s caps))"
| "ms (Alt a b) s caps = ms a s caps @ ms b s caps"
| "ms (Grp a) s caps =
     map (\<lambda>(s', caps'). (s', caps' @ [take (length s - length s') s])) (ms a s caps)"

text \<open>
  \<^verbatim>\<open>String.prototype.replace\<close> with a global regular expression: scan from the left,
  replace the match found at the first position that has one, resume after it. After an
  empty match the scan moves one character on. \<open>f\<close> builds the replacement from the
  captures.
\<close>

fun replaceAll :: "rx \<Rightarrow> (string list \<Rightarrow> string) \<Rightarrow> string \<Rightarrow> string" where
  "replaceAll r f [] = (case ms r [] [] of [] \<Rightarrow> [] | (rest, caps) # _ \<Rightarrow> f caps)"
| "replaceAll r f (c # cs) =
     (case ms r (c # cs) [] of
        [] \<Rightarrow> c # replaceAll r f cs
      | (rest, caps) # _ \<Rightarrow>
          if length rest < length (c # cs) then f caps @ replaceAll r f rest
          else f caps @ c # replaceAll r f cs)"

text \<open>A letter under the \<^verbatim>\<open>i\<close> flag, and a word of such letters.\<close>

definition chr_i :: "char \<Rightarrow> rx" where
  "chr_i x = Cls (\<lambda>c. lower_char c = lower_char x)"

fun word_i :: "string \<Rightarrow> rx" where
  "word_i [] = Eps"
| "word_i [x] = chr_i x"
| "word_i (x # xs) = Seq (chr_i x) (word_i xs)"

fun alts :: "rx list \<Rightarrow> rx" where
  "alts [] = Eps"
| "alts [r] = r"
| "alts (r # rs) = Alt r (alts rs)"

text \<open>The declarative reading of an expression: the set of strings it matches.\<close>

fun lang :: "rx \<Rightarrow> string set" where
  "lang (Cls P) = {[c] | c. P c}"
| "lang (Rep P lo hi) =
     {u. lo \<le> length u \<and> (case hi of None \<Rightarrow> True | Some h \<Rightarrow> length u \<le> h) \<and> (\<forall>c \<in> set u. P c)}"
| "lang Eps = {[]}"
| "lang (Seq a b) = {u @ v | u v. u \<in> lang a \<and> v \<in> lang b}"
| "lang (Alt a b) = lang a \<union> lang b"
| "lang (Grp a) = lang a"

text \<open>\<open>occurs r s\<close>: some substring of \<open>s\<close> is matched by \<open>r\<close>.\<close>

definition occurs :: "rx \<Rightarrow> string \<Rightarrow> bool" where
  "occurs r s = (\<exists>u v w. s = u @ v @ w \<and> v \<in> lang r)"

section \<open>The pattern scrubber\<close>

subsection \<open>Character classes of the six patterns\<close>

definition cls_token :: "char \<Rightarrow> bool" where   \<comment> \<open>\<^verbatim>\<open>[^\s"']\<close>\<close>
  "cls_token c = (\<not> is_space c \<and> c \<noteq> CHR 0x22 \<and> c \<noteq> CHR 0x27)"

definition cls_value :: "char \<Rightarrow> bool" where   \<comment> \<open>\<^verbatim>\<open>[^\s&"']\<close>\<close>
  "cls_value c = (\<not> is_space c \<and> c \<noteq> CHR ''&'' \<and> c \<noteq> CHR 0x22 \<and> c \<noteq> CHR 0x27)"

definition cls_assign :: "char \<Rightarrow> bool" where   \<comment> \<open>\<^verbatim>\<open>[:=]\<close>\<close>
  "cls_assign c = (c = CHR '':'' \<or> c = CHR ''='')"

definition cls_sep :: "char \<Rightarrow> bool" where   \<comment> \<open>\<^verbatim>\<open>[:=\s]\<close>\<close>
  "cls_sep c = (c = CHR '':'' \<or> c = CHR ''='' \<or> is_space c)"

definition cls_dash :: "char \<Rightarrow> bool" where   \<comment> \<open>\<^verbatim>\<open>[-\s]\<close>\<close>
  "cls_dash c = (c = CHR ''-'' \<or> is_space c)"

definition cls_hex :: "char \<Rightarrow> bool" where   \<comment> \<open>\<^verbatim>\<open>[a-f0-9]\<close> under the \<^verbatim>\<open>i\<close> flag\<close>
  "cls_hex c = ((CHR ''a'' \<le> lower_char c \<and> lower_char c \<le> CHR ''f'') \<or> is_digit c)"

definition cls_b64 :: "char \<Rightarrow> bool" where   \<comment> \<open>\<^verbatim>\<open>[A-Za-z0-9+/]\<close>\<close>
  "cls_b64 c = (is_alpha c \<or> is_digit c \<or> c = CHR ''+'' \<or> c = CHR ''/'')"

definition cls_local :: "char \<Rightarrow> bool" where   \<comment> \<open>\<^verbatim>\<open>[A-Za-z0-9._%+-]\<close>\<close>
  "cls_local c = (is_alpha c \<or> is_digit c \<or> c \<in> set ''._%+-'')"

definition cls_notat :: "char \<Rightarrow> bool" where   \<comment> \<open>\<^verbatim>\<open>[^@\s]\<close>\<close>
  "cls_notat c = (c \<noteq> CHR ''@'' \<and> \<not> is_space c)"

definition cls_domain :: "char \<Rightarrow> bool" where   \<comment> \<open>\<^verbatim>\<open>[A-Za-z0-9.-]\<close>\<close>
  "cls_domain c = (is_alpha c \<or> is_digit c \<or> c = CHR ''.'' \<or> c = CHR ''-'')"

subsection \<open>The six patterns\<close>

definition rx_email :: rx where
  \<comment> \<open>\<^verbatim>\<open>/([A-Za-z0-9._%+-])[^@\s]*(@[A-Za-z0-9.-]+\.[A-Za-z]{2,})/g\<close>\<close>
  "rx_email =
     Seq (Grp (Cls cls_local))
      (Seq (Rep cls_notat 0 None)
        (Grp (Seq (Cls (\<lambda>c. c = CHR ''@''))
               (Seq (Rep cls_domain 1 None)
                 (Seq (Cls (\<lambda>c. c = CHR ''.'')) (Rep is_alpha 2 None))))))"

definition rx_bearer :: rx where
  \<comment> \<open>\<^verbatim>\<open>/bearer\s+[^\s"']+/gi\<close>\<close>
  "rx_bearer = Seq (word_i ''bearer'') (Seq (Rep is_space 1 None) (Rep cls_token 1 None))"

definition rx_keyvalue :: rx where
  \<comment> \<open>\<^verbatim>\<open>/(password|pass|pwd|secret|token|auth|authorization|key)\s*[:=]\s*[^\s&"']+/gi\<close>\<close>
  "rx_keyvalue =
     Seq (Grp (alts (map word_i
            [''password'', ''pass'', ''pwd'', ''secret'', ''token'', ''auth'',
             ''authorization'', ''key''])))
      (Seq (Rep is_space 0 None)
        (Seq (Cls cls_assign) (Seq (Rep is_space 0 None) (Rep cls_value 1 None))))"

definition rx_code :: rx where
  \<comment> \<open>\<^verbatim>\<open>/((?:code|2fa|two[-\s]?factor|otp)\s*[:=\s]+)(\d{4,8})/gi\<close>\<close>
  "rx_code =
     Seq (Grp (Seq (alts [word_i ''code'', word_i ''2fa'',
                          Seq (word_i ''two'') (Seq (Rep cls_dash 0 (Some 1)) (word_i ''factor'')),
                          word_i ''otp''])
               (Seq (Rep is_space 0 None) (Rep cls_sep 1 None))))
         (Grp (Rep is_digit 4 (Some 8)))"

definition rx_hex :: rx where
  \<comment> \<open>\<^verbatim>\<open>/[a-f0-9]{32,}/gi\<close>\<close>
  "rx_hex = Rep cls_hex 32 None"

definition rx_base64 :: rx where
  \<comment> \<open>\<^verbatim>\<open>/[A-Za-z0-9+/]{20,}={0,2}/g\<close>\<close>
  "rx_base64 = Seq (Rep cls_b64 20 None) (Rep (\<lambda>c. c = CHR ''='') 0 (Some 2))"

subsection \<open>maskEmail and redactString\<close>

text \<open>\<open>grp caps i\<close> is the capture \<^verbatim>\<open>$i\<close> (the empty string when the group is absent).\<close>

definition grp :: "string list \<Rightarrow> nat \<Rightarrow> string" where
  "grp caps i = (if 0 < i \<and> i \<le> length caps then caps ! (i - 1) else [])"

definition maskEmail :: "string \<Rightarrow> string" where
  "maskEmail text = replaceAll rx_email (\<lambda>caps. grp caps 1 @ ''***'' @ grp caps 2) text"

definition maskBearer :: "string \<Rightarrow> string" where
  "maskBearer s = replaceAll rx_bearer (\<lambda>caps. ''Bearer ***'') s"

definition maskKeyValue :: "string \<Rightarrow> string" where
  "maskKeyValue s = replaceAll rx_keyvalue (\<lambda>caps. grp caps 1 @ ''=***'') s"

definition maskCode :: "string \<Rightarrow> string" where
  "maskCode s = replaceAll rx_code (\<lambda>caps. grp caps 1 @ ''******'') s"

definition maskHex :: "string \<Rightarrow> string" where
  "maskHex s = replaceAll rx_hex (\<lambda>caps. ''***'') s"

definition maskBase64 :: "string \<Rightarrow> string" where
  "maskBase64 s = replaceAll rx_base64 (\<lambda>caps. ''***'') s"

definition redactString :: "string \<Rightarrow> string" where
  "redactString input =
     (let s = input;
          s = maskBearer s;
          s = maskKeyValue s;
          s = maskCode s;
          s = maskHex s;
          s = maskBase64 s;
          s = maskEmail s
      in s)"

section \<open>JavaScript values\<close>

text \<open>
  The values a caller can hand to \<^verbatim>\<open>sanitizeArgs\<close>. Numbers are modelled by the
  integers. \<open>Arr\<close> and \<open>Obj\<close> are an array and a plain object that nothing else
  refers to; an object lists its own enumerable properties in enumeration order, with
  distinct keys. \<open>Ref a\<close> is a reference to the array or object stored at address \<open>a\<close>
  of a heap: two occurrences of \<open>Ref a\<close> are the same object, which is how shared and
  cyclic inputs are written. The code never writes to its input, so the heap is fixed.
\<close>

datatype jsval =
    Undefined
  | Null
  | Bool bool
  | Num int
  | Str string
  | Arr "jsval list"
  | Obj "(string \<times> jsval) list"
  | Ref nat

datatype cell = ArrCell "jsval list" | ObjCell "(string \<times> jsval) list"

type_synonym heap = "nat \<Rightarrow> cell"

text \<open>
  What a \<^verbatim>\<open>try\<close> block can catch here: the engine's RangeError when the call stack is
  exhausted, the TypeError of \<^verbatim>\<open>JSON.stringify\<close> on a circular structure, and the
  SyntaxError of \<^verbatim>\<open>JSON.parse(undefined)\<close>.
\<close>

datatype error = RangeError | TypeError | SyntaxError

text \<open>The decimal numeral of an array index, the key under which the replacer sees an element.\<close>

fun show_nat :: "nat \<Rightarrow> string" where
  "show_nat n =
     (if n < 10 then [char_of (48 + n)]
      else show_nat (n div 10) @ [char_of (48 + n mod 10)])"

declare show_nat.simps [simp del]

section \<open>Key-based redaction\<close>

definition fullMaskKeys :: "string list" where
  "fullMaskKeys = [''password'', ''pass'', ''pwd'', ''secret'', ''token'', ''auth'',
                   ''authorization'', ''applepassword'']"

definition codeKeys :: "string list" where
  "codeKeys = [''code'', ''otp'', ''2fa'', ''twofactor'', ''two_factor'']"

definition identifierKeys :: "string list" where
  "identifierKeys = [''email'', ''appleid'', ''apple_id'', ''username'', ''user'']"

definition numericCodeKeys :: "string list" where
  "numericCodeKeys = [''code'', ''otp'', ''2fa'']"

text \<open>The branch of \<^verbatim>\<open>redactValueByKey\<close> for a string value; \<open>k\<close> is the lowered key.\<close>

definition redactStringByKey :: "string \<Rightarrow> string \<Rightarrow> string" where
  "redactStringByKey k s =
     (if k \<in> set fullMaskKeys then ''***''
      else if k \<in> set codeKeys then ''******''
      else if k \<in> set identifierKeys then maskEmail s
      else redactString s)"

text \<open>The branch for a number value.\<close>

definition redactNumberByKey :: "string \<Rightarrow> int \<Rightarrow> int" where
  "redactNumberByKey k i = (if k \<in> set numericCodeKeys then 0 else i)"

text \<open>
  \<^verbatim>\<open>JSON.stringify\<close> walks an array and an object by calling SerializeJSONProperty on
  each element (under its index) and on each property (under its key), in order. The
  first exception ends the walk. An element that serializes to \<^verbatim>\<open>undefined\<close> is
  written \<^verbatim>\<open>null\<close>, a property that does is left out.
\<close>

fun serializeElements ::
  "(string \<Rightarrow> jsval \<Rightarrow> error + jsval option) \<Rightarrow> nat \<Rightarrow> jsval list \<Rightarrow> error + jsval list" where
  "serializeElements ser i [] = Inr []"
| "serializeElements ser i (x # xs) =
     (case ser (show_nat i) x of
        Inl e \<Rightarrow> Inl e
      | Inr r \<Rightarrow>
          (case serializeElements ser (Suc i) xs of
             Inl e \<Rightarrow> Inl e
           | Inr ts \<Rightarrow> Inr ((case r of None \<Rightarrow> Null | Some t \<Rightarrow> t) # ts)))"

fun serializeMembers ::
  "(string \<Rightarrow> jsval \<Rightarrow> error + jsval option) \<Rightarrow> (string \<times> jsval) list
     \<Rightarrow> error + (string \<times> jsval) list" where
  "serializeMembers ser [] = Inr []"
| "serializeMembers ser ((k, x) # kvs) =
     (case ser k x of
        Inl e \<Rightarrow> Inl e
      | Inr r \<Rightarrow>
          (case serializeMembers ser kvs of
             Inl e \<Rightarrow> Inl e
           | Inr mems \<Rightarrow> Inr (case r of None \<Rightarrow> mems | Some t \<Rightarrow> (k, t) # mems)))"

definition serializeJSONArray ::
  "(string \<Rightarrow> jsval \<Rightarrow> error + jsval option) \<Rightarrow> jsval list \<Rightarrow> error + jsval option" where
  "serializeJSONArray ser xs =
     (case serializeElements ser 0 xs of Inl e \<Rightarrow> Inl e | Inr ts \<Rightarrow> Inr (Some (Arr ts)))"

definition serializeJSONObject ::
  "(string \<Rightarrow> jsval \<Rightarrow> error + jsval option) \<Rightarrow> (string \<times> jsval) list \<Rightarrow> error + jsval option"
  where
  "serializeJSONObject ser kvs =
     (case serializeMembers ser kvs of Inl e \<Rightarrow> Inl e | Inr mems \<Rightarrow> Inr (Some (Obj mems)))"

text \<open>
  \<^verbatim>\<open>redactValueByKey\<close> hands an object to \<^verbatim>\<open>JSON.stringify\<close> with itself as the
  replacer, and \<^verbatim>\<open>JSON.stringify\<close> calls the replacer first on the root, under the key
  \<^verbatim>\<open>""\<close>, with the same object: the two call each other without end, and the recursion
  stops only when the engine's call stack is exhausted and a RangeError is thrown, which the
  nearest \<^verbatim>\<open>catch\<close> turns into the unchanged value. The model therefore carries the
  number \<open>n\<close> of nested calls the stack still admits; a call made at \<open>0\<close> throws.

  \<open>serializeJSONProperty h n stack key value\<close> is SerializeJSONProperty of
  \<^verbatim>\<open>JSON.stringify(_, (k, v) => redactValueByKey(k, v))\<close> composed with
  \<^verbatim>\<open>JSON.parse\<close>: it returns the parsed value of the text written for \<open>value\<close> (\<open>None\<close>
  when nothing is written, the result \<^verbatim>\<open>undefined\<close>). \<open>stack\<close> holds the addresses
  of the objects being written, for the circularity check.
\<close>

fun redactValueByKey :: "heap \<Rightarrow> nat \<Rightarrow> string \<Rightarrow> jsval \<Rightarrow> error + jsval"
and serializeJSONProperty ::
  "heap \<Rightarrow> nat \<Rightarrow> nat list \<Rightarrow> string \<Rightarrow> jsval \<Rightarrow> error + jsval option"
where
  "redactValueByKey h 0 key val = Inl RangeError"
| "redactValueByKey h (Suc n) key val =
     (let k = toLowerCase key in
      case val of
        Undefined \<Rightarrow> Inr val
      | Null \<Rightarrow> Inr val
      | Str s \<Rightarrow> Inr (Str (redactStringByKey k s))
      | Num i \<Rightarrow> Inr (Num (redactNumberByKey k i))
      | Bool b \<Rightarrow> Inr val
      | _ \<Rightarrow>
          (case serializeJSONProperty h n [] [] val of
             Inr (Some t) \<Rightarrow> Inr t
           | _ \<Rightarrow> Inr val))"
| "serializeJSONProperty h 0 stack key val = Inl RangeError"
| "serializeJSONProperty h (Suc n) stack key val =
     (case redactValueByKey h n key val of
        Inl e \<Rightarrow> Inl e
      | Inr v \<Rightarrow>
          (case v of
             Undefined \<Rightarrow> Inr None
           | Arr xs \<Rightarrow> serializeJSONArray (serializeJSONProperty h n stack) xs
           | Obj kvs \<Rightarrow> serializeJSONObject (serializeJSONProperty h n stack) kvs
           | Ref a \<Rightarrow>
               if a \<in> set stack then Inl TypeError
               else (case h a of
                       ArrCell xs \<Rightarrow> serializeJSONArray (serializeJSONProperty h n (a # stack)) xs
                     | ObjCell kvs \<Rightarrow>
                         serializeJSONObject (serializeJSONProperty h n (a # stack)) kvs)
           | _ \<Rightarrow> Inr (Some v)))"

text \<open>
  \<^verbatim>\<open>sanitizeArgs\<close>, with \<open>n\<close> the number of nested calls the stack admits below it.
\<close>

definition sanitizeArg :: "heap \<Rightarrow> nat \<Rightarrow> jsval \<Rightarrow> jsval" where
  "sanitizeArg h n arg =
     (case arg of
        Str s \<Rightarrow> Str (redactString s)
      | Undefined \<Rightarrow> arg
      | Null \<Rightarrow> arg
      | Bool b \<Rightarrow> arg
      | Num i \<Rightarrow> arg
      | _ \<Rightarrow>
          (case serializeJSONProperty h n [] [] arg of
             Inr (Some t) \<Rightarrow> t
           | _ \<Rightarrow> arg))"

definition sanitizeArgs :: "heap \<Rightarrow> nat \<Rightarrow> jsval list \<Rightarrow> jsval list" where
  "sanitizeArgs h n args = map (sanitizeArg h n) args"

section \<open>Notions used to state the properties\<close>

text \<open>
  \<open>plain v\<close>: \<open>v\<close> is JSON data, built from \<^verbatim>\<open>null\<close>, booleans, numbers, strings,
  arrays and objects, with no \<^verbatim>\<open>undefined\<close> and no shared or cyclic part.
\<close>

fun plain :: "jsval \<Rightarrow> bool" where
  "plain Undefined = False"
| "plain (Ref a) = False"
| "plain (Arr xs) = list_all plain xs"
| "plain (Obj kvs) = list_all plain (map snd kvs)"
| "plain v = True"

text \<open>The nesting depth of arrays and objects.\<close>

fun depth :: "jsval \<Rightarrow> nat" where
  "depth (Arr xs) = Suc (foldr max (map depth xs) 0)"
| "depth (Obj kvs) = Suc (foldr max (map depth (map snd kvs)) 0)"
| "depth v = 0"

text \<open>
  The shape of a value: its arrays with their lengths and its objects with their keys in
  order, every scalar replaced by a fixed one of its type.
\<close>

fun shape :: "jsval \<Rightarrow> jsval" where
  "shape (Arr xs) = Arr (map shape xs)"
| "shape (Obj kvs) = Obj (map (\<lambda>kv. (fst kv, shape (snd kv))) kvs)"
| "shape (Str s) = Str []"
| "shape (Num i) = Num 0"
| "shape (Bool b) = Bool False"
| "shape v = v"

text \<open>
  One application of the key rules to every scalar of a plain value, each under the key
  (or the array index) it is stored at.
\<close>

fun redactTree :: "string \<Rightarrow> jsval \<Rightarrow> jsval"
and redactElements :: "nat \<Rightarrow> jsval list \<Rightarrow> jsval list"
and redactMembers :: "(string \<times> jsval) list \<Rightarrow> (string \<times> jsval) list"
where
  "redactTree key (Str s) = Str (redactStringByKey (toLowerCase key) s)"
| "redactTree key (Num i) = Num (redactNumberByKey (toLowerCase key) i)"
| "redactTree key (Arr xs) = Arr (redactElements 0 xs)"
| "redactTree key (Obj kvs) = Obj (redactMembers kvs)"
| "redactTree key v = v"
| "redactElements i [] = []"
| "redactElements i (x # xs) = redactTree (show_nat i) x # redactElements (Suc i) xs"
| "redactMembers [] = []"
| "redactMembers ((k, x) # kvs) = (k, redactTree k x) # redactMembers kvs"

text \<open>\<open>stable key v\<close>: applying the key rules to \<open>v\<close> a second time changes nothing more.\<close>

definition stable :: "string \<Rightarrow> jsval \<Rightarrow> bool" where
  "stable key v = (redactTree key (redactTree key v) = redactTree key v)"

text \<open>
  \<open>reaches h v w\<close>: \<open>w\<close> is an element or property value of \<open>v\<close>, or of one of those, and so
  on, following references through the heap. \<open>cyclic h v\<close>: \<open>v\<close> is or contains an object
  that contains itself.
\<close>

fun children :: "heap \<Rightarrow> jsval \<Rightarrow> jsval list" where
  "children h (Arr xs) = xs"
| "children h (Obj kvs) = map snd kvs"
| "children h (Ref a) = (case h a of ArrCell xs \<Rightarrow> xs | ObjCell kvs \<Rightarrow> map snd kvs)"
| "children h v = []"

inductive reaches :: "heap \<Rightarrow> jsval \<Rightarrow> jsval \<Rightarrow> bool" for h :: heap where
  child: "w \<in> set (children h v) \<Longrightarrow> reaches h v w"
| step: "c \<in> set (children h v) \<Longrightarrow> reaches h c w \<Longrightarrow> reaches h v w"

definition cyclic :: "heap \<Rightarrow> jsval \<Rightarrow> bool" where
  "cyclic h v = (\<exists>a. (v = Ref a \<or> reaches h v (Ref a)) \<and> reaches h (Ref a) (Ref a))"

text \<open>\<open>isObject v\<close>: \<^verbatim>\<open>typeof v === "object" && v !== null\<close>.\<close>

fun isObject :: "jsval \<Rightarrow> bool" where
  "isObject (Arr xs) = True"
| "isObject (Obj kvs) = True"
| "isObject (Ref a) = True"
| "isObject v = False"

text \<open>An empty heap, and a heap whose object at address 0 has itself as a property.\<close>

definition emptyHeap :: heap where
  "emptyHeap = (\<lambda>a. ObjCell [])"

definition selfHeap :: heap where
  "selfHeap = (\<lambda>a. if a = 0 then ObjCell [(''password'', Str ''hunter2''), (''self'', Ref 0)]
                     else ObjCell [])"

text \<open>\<open>found r s\<close> decides \<open>occurs r s\<close> by trying the matcher at every position.\<close>

fun found :: "rx \<Rightarrow> string \<Rightarrow> bool" where
  "found r [] = (ms r [] [] \<noteq> [])"
| "found r (c # cs) = (ms r (c # cs) [] \<noteq> [] \<or> found r cs)"

definition run_ok :: "(char \<Rightarrow> bool) \<Rightarrow> nat \<Rightarrow> nat option \<Rightarrow> string \<Rightarrow> bool" where
  "run_ok P lo hi u =
     (lo \<le> length u \<and> (case hi of None \<Rightarrow> True | Some h \<Rightarrow> length u \<le> h) \<and> (\<forall>c \<in> set u. P c))"

text \<open>
  Three statements about one stack budget \<open>n\<close>, each proved for every \<open>n\<close> by induction.
  \<open>settled h n\<close>: on a plain value whose redaction is stable, \<^verbatim>\<open>redactValueByKey\<close>
  returns the value or its redaction, and the serializer writes the redaction unless the
  stack runs out, which it does not when the budget exceeds the depth by two.
  \<open>keeps h n\<close>: on a plain value, whatever is returned is plain and has the same shape.
  \<open>doomed h n\<close>: on a cyclic value the serializer throws and \<^verbatim>\<open>redactValueByKey\<close>
  returns the value itself, unless it is the call that exhausts the stack.
\<close>

definition settled :: "heap \<Rightarrow> nat \<Rightarrow> bool" where
  "settled h n = (\<forall>k v st. plain v \<longrightarrow> stable k v \<longrightarrow>
      (0 < n \<longrightarrow> redactValueByKey h n k v = Inr v \<or> redactValueByKey h n k v = Inr (redactTree k v))
    \<and> (serializeJSONProperty h n st k v = Inl RangeError
        \<or> serializeJSONProperty h n st k v = Inr (Some (redactTree k v)))
    \<and> (depth v + 2 \<le> n \<longrightarrow> serializeJSONProperty h n st k v = Inr (Some (redactTree k v))))"

definition keeps :: "heap \<Rightarrow> nat \<Rightarrow> bool" where
  "keeps h n = (\<forall>k v st. plain v \<longrightarrow>
      (\<forall>v'. redactValueByKey h n k v = Inr v' \<longrightarrow> plain v' \<and> shape v' = shape v)
    \<and> (\<forall>r. serializeJSONProperty h n st k v = Inr r \<longrightarrow>
           (\<exists>t. r = Some t \<and> plain t \<and> shape t = shape v)))"

definition doomed :: "heap \<Rightarrow> nat \<Rightarrow> bool" where
  "doomed h n = (\<forall>k v st. cyclic h v \<longrightarrow>
      (\<exists>e. serializeJSONProperty h n st k v = Inl e)
    \<and> (redactValueByKey h n k v = Inl RangeError \<or> redactValueByKey h n k v = Inr v))"

section \<open>Properties of the pattern scrubber\<close>

lemma redactString_passes:
  "redactString s = maskEmail (maskBase64 (maskHex (maskCode (maskKeyValue (maskBearer s)))))"
  by (simp add: redactString_def)

lemma bearer_example: "maskBearer ''Bearer abc123def456'' = ''Bearer ***''"
  by code_simp

lemma bearer_mask_keyvalue: "maskKeyValue ''Bearer ***'' = ''Bearer ***''"
  by code_simp

lemma bearer_mask_code: "maskCode ''Bearer ***'' = ''Bearer ***''"
  by code_simp

lemma bearer_mask_hex: "maskHex ''Bearer ***'' = ''Bearer ***''"
  by code_simp

lemma bearer_mask_base64: "maskBase64 ''Bearer ***'' = ''Bearer ***''"
  by code_simp

lemma bearer_mask_email: "maskEmail ''Bearer ***'' = ''Bearer ***''"
  by code_simp

text \<open>
  C8. The six passes of \<open>redactString\<close> run in the order bearer, key=value, labelled
  code, long hex, long base64, email. On \<^verbatim>\<open>"Bearer abc123def456"\<close> the bearer pass
  writes \<^verbatim>\<open>"Bearer ***"\<close>, none of the five later passes rewrites that placeholder, and
  the result of \<open>redactString\<close> is exactly \<^verbatim>\<open>"Bearer ***"\<close>.
\<close>

theorem scrub_order:
  "redactString s = maskEmail (maskBase64 (maskHex (maskCode (maskKeyValue (maskBearer s)))))
   \<and> redactString ''Bearer abc123def456'' = ''Bearer ***''
   \<and> maskBearer ''Bearer abc123def456'' = ''Bearer ***''
   \<and> maskKeyValue ''Bearer ***'' = ''Bearer ***''
   \<and> maskCode ''Bearer ***'' = ''Bearer ***''
   \<and> maskHex ''Bearer ***'' = ''Bearer ***''
   \<and> maskBase64 ''Bearer ***'' = ''Bearer ***''
   \<and> maskEmail ''Bearer ***'' = ''Bearer ***''"
  by (simp add: redactString_passes bearer_example bearer_mask_keyvalue bearer_mask_code
      bearer_mask_hex bearer_mask_base64 bearer_mask_email)

subsection \<open>The matcher against the declarative reading\<close>

lemma rep_sound: "w \<in> set (rep P lo hi s) \<Longrightarrow> \<exists>u. s = u @ w \<and> run_ok P lo hi u"
proof (induction s arbitrary: lo hi)
  case Nil
  then show ?case by (auto simp: run_ok_def split: if_splits option.splits)
next
  case (Cons c cs)
  show ?case
  proof (cases "P c \<and> hi \<noteq> Some 0")
    case True
    with Cons.prems have "w \<in> set (rep P (lo - 1) (map_option (\<lambda>h. h - 1) hi) cs) \<or> (lo = 0 \<and> w = c # cs)"
      by (auto split: if_splits)
    then show ?thesis
    proof
      assume "w \<in> set (rep P (lo - 1) (map_option (\<lambda>h. h - 1) hi) cs)"
      from Cons.IH [OF this] obtain u where u: "cs = u @ w" "run_ok P (lo - 1) (map_option (\<lambda>h. h - 1) hi) u"
        by blast
      have "run_ok P lo hi (c # u)" using u(2) True
        by (cases hi) (auto simp: run_ok_def)
      with u(1) show ?thesis by (metis append_Cons)
    next
      assume "lo = 0 \<and> w = c # cs"
      then have "c # cs = [] @ w \<and> run_ok P lo hi []" by (auto simp: run_ok_def split: option.splits)
      then show ?thesis by blast
    qed
  next
    case False
    with Cons.prems have "lo = 0 \<and> w = c # cs" by (auto split: if_splits)
    then have "c # cs = [] @ w \<and> run_ok P lo hi []" by (auto simp: run_ok_def split: option.splits)
    then show ?thesis by blast
  qed
qed

lemma rep_complete: "run_ok P lo hi u \<Longrightarrow> w \<in> set (rep P lo hi (u @ w))"
proof (induction u arbitrary: lo hi)
  case Nil
  then show ?case by (cases w) (auto simp: run_ok_def)
next
  case (Cons c u)
  from Cons.prems have pc: "P c" and h0: "hi \<noteq> Some 0" by (auto simp: run_ok_def)
  from Cons.prems have "run_ok P (lo - 1) (map_option (\<lambda>h. h - 1) hi) u"
    by (cases hi) (auto simp: run_ok_def)
  from Cons.IH [OF this] show ?case using pc h0 by simp
qed

lemma lang_Rep: "lang (Rep P lo hi) = {u. run_ok P lo hi u}"
  by (simp add: run_ok_def)

lemma ms_sound: "(w, caps') \<in> set (ms r s caps) \<Longrightarrow> \<exists>u. s = u @ w \<and> u \<in> lang r"
proof (induction r arbitrary: s caps w caps')
  case (Cls P)
  then show ?case by (auto split: list.splits if_splits)
next
  case (Rep P lo hi)
  then have "w \<in> set (rep P lo hi s)" by auto
  from rep_sound [OF this] show ?case by (simp only: lang_Rep) blast
next
  case Eps
  then show ?case by simp
next
  case (Seq a b)
  from Seq.prems obtain s1 c1 where 1: "(s1, c1) \<in> set (ms a s caps)" and 2: "(w, caps') \<in> set (ms b s1 c1)"
    by auto
  from Seq.IH(1) [OF 1] obtain u where u: "s = u @ s1" "u \<in> lang a" by blast
  from Seq.IH(2) [OF 2] obtain v where v: "s1 = v @ w" "v \<in> lang b" by blast
  have "s = (u @ v) @ w" using u v by simp
  moreover have "u @ v \<in> lang (Seq a b)" using u v by auto
  ultimately show ?case by blast
next
  case (Alt a b)
  from Alt.prems have "(w, caps') \<in> set (ms a s caps) \<or> (w, caps') \<in> set (ms b s caps)" by simp
  then show ?case
  proof
    assume "(w, caps') \<in> set (ms a s caps)"
    from Alt.IH(1) [OF this] show ?thesis by auto
  next
    assume "(w, caps') \<in> set (ms b s caps)"
    from Alt.IH(2) [OF this] show ?thesis by auto
  qed
next
  case (Grp a)
  from Grp.prems obtain c1 where "(w, c1) \<in> set (ms a s caps)" by auto
  from Grp.IH [OF this] show ?case by simp
qed

lemma ms_complete: "u \<in> lang r \<Longrightarrow> \<exists>caps'. (w, caps') \<in> set (ms r (u @ w) caps)"
proof (induction r arbitrary: u w caps)
  case (Cls P)
  then show ?case by auto
next
  case (Rep P lo hi)
  then have "run_ok P lo hi u" by (simp add: run_ok_def)
  from rep_complete [OF this] show ?case by auto
next
  case Eps
  then show ?case by simp
next
  case (Seq a b)
  from Seq.prems obtain x y where xy: "u = x @ y" "x \<in> lang a" "y \<in> lang b" by auto
  from Seq.IH(1) [OF xy(2)] obtain c1 where 1: "(y @ w, c1) \<in> set (ms a (x @ (y @ w)) caps)" by blast
  from Seq.IH(2) [OF xy(3)] obtain c2 where 2: "(w, c2) \<in> set (ms b (y @ w) c1)" by blast
  from 1 2 xy(1) show ?case by force
next
  case (Alt a b)
  then show ?case by (metis Un_iff lang.simps(5) ms.simps(5) set_append)
next
  case (Grp a)
  from Grp.prems have "u \<in> lang a" by simp
  from Grp.IH [OF this] obtain c1 where "(w, c1) \<in> set (ms a (u @ w) caps)" by blast
  then show ?case by force
qed

lemma found_iff: "found r s \<longleftrightarrow> (\<exists>u t. s = u @ t \<and> ms r t [] \<noteq> [])"
proof (induction s)
  case Nil
  then show ?case by simp
next
  case (Cons c cs)
  show ?case
  proof
    assume "found r (c # cs)"
    then consider "ms r (c # cs) [] \<noteq> []" | "found r cs" by auto
    then show "\<exists>u t. c # cs = u @ t \<and> ms r t [] \<noteq> []"
    proof cases
      case 1
      then show ?thesis by (metis append_Nil)
    next
      case 2
      with Cons.IH obtain u t where "cs = u @ t" "ms r t [] \<noteq> []" by blast
      then show ?thesis by (metis append_Cons)
    qed
  next
    assume "\<exists>u t. c # cs = u @ t \<and> ms r t [] \<noteq> []"
    then obtain u t where ut: "c # cs = u @ t" "ms r t [] \<noteq> []" by blast
    show "found r (c # cs)"
    proof (cases u)
      case Nil
      with ut have "ms r (c # cs) [] \<noteq> []" by simp
      then show ?thesis by simp
    next
      case (Cons a u')
      with ut have "cs = u' @ t" by simp
      with ut(2) Cons.IH show ?thesis by auto
    qed
  qed
qed

lemma occurs_iff_found: "occurs r s \<longleftrightarrow> found r s"
proof
  assume "occurs r s"
  then obtain u v w where s: "s = u @ v @ w" and v: "v \<in> lang r" by (auto simp: occurs_def)
  from ms_complete [OF v, of w "[]"] have "ms r (v @ w) [] \<noteq> []" by auto
  with s show "found r s" unfolding found_iff by blast
next
  assume "found r s"
  then obtain u t where s: "s = u @ t" and t: "ms r t [] \<noteq> []" unfolding found_iff by blast
  from t obtain w caps' where "(w, caps') \<in> set (ms r t [])" by (cases "ms r t []") auto
  from ms_sound [OF this] obtain v where "t = v @ w" "v \<in> lang r" by blast
  with s show "occurs r s" by (auto simp: occurs_def)
qed

lemma replaceAll_id: "\<not> found r s \<Longrightarrow> replaceAll r f s = s"
  by (induction s) auto

lemma replaceAll_no_occurrence: "\<not> occurs r s \<Longrightarrow> replaceAll r f s = s"
  by (simp add: occurs_iff_found replaceAll_id)

text \<open>
  C9. \<open>redactString\<close> is a function from strings to strings, defined by terminating
  recursion (\<open>replaceAll\<close> moves on by at least one character at each step): it has no
  failing branch. On a string none of whose substrings is matched by any of the six
  patterns it returns its input.
\<close>

theorem scrub_identity:
  assumes "\<not> occurs rx_bearer s" "\<not> occurs rx_keyvalue s" "\<not> occurs rx_code s"
    "\<not> occurs rx_hex s" "\<not> occurs rx_base64 s" "\<not> occurs rx_email s"
  shows "redactString s = s"
proof -
  have 1: "maskBearer s = s" unfolding maskBearer_def using assms(1) by (rule replaceAll_no_occurrence)
  have 2: "maskKeyValue s = s" unfolding maskKeyValue_def using assms(2) by (rule replaceAll_no_occurrence)
  have 3: "maskCode s = s" unfolding maskCode_def using assms(3) by (rule replaceAll_no_occurrence)
  have 4: "maskHex s = s" unfolding maskHex_def using assms(4) by (rule replaceAll_no_occurrence)
  have 5: "maskBase64 s = s" unfolding maskBase64_def using assms(5) by (rule replaceAll_no_occurrence)
  have 6: "maskEmail s = s" unfolding maskEmail_def using assms(6) by (rule replaceAll_no_occurrence)
  show ?thesis by (simp add: redactString_passes 1 2 3 4 5 6)
qed

theorem scrub_identity_witness:
  "\<not> occurs rx_bearer ''Fetched 12 items in 340ms''
   \<and> \<not> occurs rx_keyvalue ''Fetched 12 items in 340ms''
   \<and> \<not> occurs rx_code ''Fetched 12 items in 340ms''
   \<and> \<not> occurs rx_hex ''Fetched 12 items in 340ms''
   \<and> \<not> occurs rx_base64 ''Fetched 12 items in 340ms''
   \<and> \<not> occurs rx_email ''Fetched 12 items in 340ms''
   \<and> redactString ''Fetched 12 items in 340ms'' = ''Fetched 12 items in 340ms''"
proof -
  have 1: "\<not> occurs rx_bearer ''Fetched 12 items in 340ms''" unfolding occurs_iff_found by code_simp
  have 2: "\<not> occurs rx_keyvalue ''Fetched 12 items in 340ms''" unfolding occurs_iff_found by code_simp
  have 3: "\<not> occurs rx_code ''Fetched 12 items in 340ms''" unfolding occurs_iff_found by code_simp
  have 4: "\<not> occurs rx_hex ''Fetched 12 items in 340ms''" unfolding occurs_iff_found by code_simp
  have 5: "\<not> occurs rx_base64 ''Fetched 12 items in 340ms''" unfolding occurs_iff_found by code_simp
  have 6: "\<not> occurs rx_email ''Fetched 12 items in 340ms''" unfolding occurs_iff_found by code_simp
  from 1 2 3 4 5 6 scrub_identity [OF 1 2 3 4 5 6] show ?thesis by simp
qed

section \<open>Properties of key-based redaction\<close>

lemma redactStringByKey_other:
  "k \<notin> set fullMaskKeys \<Longrightarrow> k \<notin> set codeKeys \<Longrightarrow> k \<notin> set identifierKeys
   \<Longrightarrow> redactStringByKey k s = redactString s"
  by (simp add: redactStringByKey_def)

lemma numericCodeKeys_subset: "set numericCodeKeys \<subseteq> set codeKeys"
  by (simp add: numericCodeKeys_def codeKeys_def)

text \<open>
  C10. Keys are compared with the listed names by equality after lowering. Under a key
  whose lowered form is none of the listed names (for instance one that only contains a
  listed name, as \<^verbatim>\<open>apiKey\<close>, \<^verbatim>\<open>userPassword\<close> or \<^verbatim>\<open>passwords\<close>), a string value is
  transformed by \<open>redactString\<close> alone and a number is returned as it is.
\<close>

theorem key_match_exact:
  assumes "toLowerCase key \<notin> set (fullMaskKeys @ codeKeys @ identifierKeys)"
  shows "redactValueByKey h (Suc n) key (Str s) = Inr (Str (redactString s))
       \<and> redactValueByKey h (Suc n) key (Num i) = Inr (Num i)"
proof -
  from assms have a: "toLowerCase key \<notin> set fullMaskKeys" "toLowerCase key \<notin> set codeKeys"
      "toLowerCase key \<notin> set identifierKeys" by auto
  from a(2) numericCodeKeys_subset have b: "toLowerCase key \<notin> set numericCodeKeys" by blast
  show ?thesis using a b by (simp add: redactStringByKey_other redactNumberByKey_def)
qed

theorem key_match_exact_witness:
  "toLowerCase ''apiKey'' \<notin> set (fullMaskKeys @ codeKeys @ identifierKeys)
   \<and> toLowerCase ''userPassword'' \<notin> set (fullMaskKeys @ codeKeys @ identifierKeys)
   \<and> toLowerCase ''passwords'' \<notin> set (fullMaskKeys @ codeKeys @ identifierKeys)
   \<and> redactValueByKey (\<lambda>_. ObjCell []) (Suc 0) ''apiKey'' (Str ''hunter2'') = Inr (Str ''hunter2'')
   \<and> redactValueByKey (\<lambda>_. ObjCell []) (Suc 0) ''userPassword'' (Str ''token=abc'')
       = Inr (Str ''token=***'')
   \<and> redactValueByKey (\<lambda>_. ObjCell []) (Suc 0) ''passwords'' (Num 7) = Inr (Num 7)"
proof -
  have k1: "toLowerCase ''apiKey'' \<notin> set (fullMaskKeys @ codeKeys @ identifierKeys)"
    by code_simp
  have k2: "toLowerCase ''userPassword'' \<notin> set (fullMaskKeys @ codeKeys @ identifierKeys)"
    by code_simp
  have k3: "toLowerCase ''passwords'' \<notin> set (fullMaskKeys @ codeKeys @ identifierKeys)"
    by code_simp
  have r1: "redactString ''hunter2'' = ''hunter2''" by code_simp
  have r2: "redactString ''token=abc'' = ''token=***''" by code_simp
  show ?thesis
    using k1 k2 k3 key_match_exact [OF k1, of "\<lambda>_. ObjCell []" 0 "''hunter2''" 0]
      key_match_exact [OF k2, of "\<lambda>_. ObjCell []" 0 "''token=abc''" 0]
      key_match_exact [OF k3, of "\<lambda>_. ObjCell []" 0 "''x''" 7] r1 r2
    by simp
qed

subsection \<open>Plain values whose redaction is stable\<close>


lemma plain_redact:
  "plain v \<Longrightarrow> plain (redactTree k v)"
  "list_all plain xs \<Longrightarrow> list_all plain (redactElements i xs)"
  "list_all plain (map snd kvs) \<Longrightarrow> list_all plain (map snd (redactMembers kvs))"
  by (induction k v and i xs and kvs rule: redactTree_redactElements_redactMembers.induct) auto

lemma depth_redact:
  "depth (redactTree k v) = depth v"
  "map depth (redactElements i xs) = map depth xs"
  "map depth (map snd (redactMembers kvs)) = map depth (map snd kvs)"
  by (induction k v and i xs and kvs rule: redactTree_redactElements_redactMembers.induct) auto

lemma depth_le_foldr_max: "x \<in> set xs \<Longrightarrow> depth x \<le> foldr max (map depth xs) 0"
  by (induction xs) auto

lemma set_redactElements_depth:
  "y \<in> set (redactElements i xs) \<Longrightarrow> depth y \<le> foldr max (map depth xs) 0"
proof -
  assume "y \<in> set (redactElements i xs)"
  then have "depth y \<le> foldr max (map depth (redactElements i xs)) 0" by (rule depth_le_foldr_max)
  then show ?thesis by (simp add: depth_redact)
qed

lemma stable_composite_key:
  "stable k (Arr xs) = stable k' (Arr xs)" "stable k (Obj kvs) = stable k' (Obj kvs)"
  by (simp_all add: stable_def)

lemma redactTree_composite_key:
  "redactTree k (Arr xs) = redactTree k' (Arr xs)" "redactTree k (Obj kvs) = redactTree k' (Obj kvs)"
  by simp_all

lemma elems_range:
  assumes H: "\<And>k v. plain v \<Longrightarrow> stable k v \<Longrightarrow>
                ser k v = Inl RangeError \<or> ser k v = Inr (Some (redactTree k v))"
  shows "list_all plain xs \<Longrightarrow> redactElements i (redactElements i xs) = redactElements i xs
         \<Longrightarrow> serializeElements ser i xs = Inl RangeError
             \<or> serializeElements ser i xs = Inr (redactElements i xs)"
proof (induction xs arbitrary: i)
  case Nil
  then show ?case by simp
next
  case (Cons x xs)
  from Cons.prems have px: "plain x" and pxs: "list_all plain xs" by simp_all
  from Cons.prems(2) have sx: "stable (show_nat i) x"
    and sxs: "redactElements (Suc i) (redactElements (Suc i) xs) = redactElements (Suc i) xs"
    by (simp_all add: stable_def)
  from H [OF px sx] Cons.IH [OF pxs sxs] show ?case by auto
qed

lemma members_range:
  assumes H: "\<And>k v. plain v \<Longrightarrow> stable k v \<Longrightarrow>
                ser k v = Inl RangeError \<or> ser k v = Inr (Some (redactTree k v))"
  shows "list_all plain (map snd kvs) \<Longrightarrow> redactMembers (redactMembers kvs) = redactMembers kvs
         \<Longrightarrow> serializeMembers ser kvs = Inl RangeError
             \<or> serializeMembers ser kvs = Inr (redactMembers kvs)"
proof (induction kvs)
  case Nil
  then show ?case by simp
next
  case (Cons kv kvs)
  obtain k x where kv: "kv = (k, x)" by (cases kv)
  from Cons.prems kv have px: "plain x" and pxs: "list_all plain (map snd kvs)" by simp_all
  from Cons.prems(2) kv have sx: "stable k x"
    and sxs: "redactMembers (redactMembers kvs) = redactMembers kvs"
    by (simp_all add: stable_def)
  from H [OF px sx] Cons.IH [OF pxs sxs] kv show ?case by auto
qed

lemma elems_exact:
  assumes H: "\<And>k v. plain v \<Longrightarrow> stable k v \<Longrightarrow> depth v \<le> d \<Longrightarrow>
                ser k v = Inr (Some (redactTree k v))"
  shows "list_all plain xs \<Longrightarrow> redactElements i (redactElements i xs) = redactElements i xs
         \<Longrightarrow> \<forall>x \<in> set xs. depth x \<le> d
         \<Longrightarrow> serializeElements ser i xs = Inr (redactElements i xs)"
proof (induction xs arbitrary: i)
  case Nil
  then show ?case by simp
next
  case (Cons x xs)
  from Cons.prems have px: "plain x" and pxs: "list_all plain xs" by simp_all
  from Cons.prems(2) have sx: "stable (show_nat i) x"
    and sxs: "redactElements (Suc i) (redactElements (Suc i) xs) = redactElements (Suc i) xs"
    by (simp_all add: stable_def)
  from Cons.prems(3) have dx: "depth x \<le> d" and dxs: "\<forall>x \<in> set xs. depth x \<le> d" by simp_all
  from H [OF px sx dx] Cons.IH [OF pxs sxs dxs] show ?case by simp
qed

lemma members_exact:
  assumes H: "\<And>k v. plain v \<Longrightarrow> stable k v \<Longrightarrow> depth v \<le> d \<Longrightarrow>
                ser k v = Inr (Some (redactTree k v))"
  shows "list_all plain (map snd kvs) \<Longrightarrow> redactMembers (redactMembers kvs) = redactMembers kvs
         \<Longrightarrow> \<forall>x \<in> set (map snd kvs). depth x \<le> d
         \<Longrightarrow> serializeMembers ser kvs = Inr (redactMembers kvs)"
proof (induction kvs)
  case Nil
  then show ?case by simp
next
  case (Cons kv kvs)
  obtain k x where kv: "kv = (k, x)" by (cases kv)
  from Cons.prems kv have px: "plain x" and pxs: "list_all plain (map snd kvs)" by simp_all
  from Cons.prems(2) kv have sx: "stable k x"
    and sxs: "redactMembers (redactMembers kvs) = redactMembers kvs"
    by (simp_all add: stable_def)
  from Cons.prems(3) kv have dx: "depth x \<le> d" and dxs: "\<forall>x \<in> set (map snd kvs). depth x \<le> d"
    by simp_all
  from H [OF px sx dx] Cons.IH [OF pxs sxs dxs] kv show ?case by simp
qed


lemmas rv_simps = redactValueByKey.simps serializeJSONProperty.simps

declare redactValueByKey.simps [simp del] serializeJSONProperty.simps [simp del]

lemma ser_Suc_Arr:
  "redactValueByKey h n k v = Inr (Arr ys) \<Longrightarrow>
   serializeJSONProperty h (Suc n) st k v = serializeJSONArray (serializeJSONProperty h n st) ys"
  by (simp add: rv_simps)

lemma ser_Suc_Obj:
  "redactValueByKey h n k v = Inr (Obj kvs) \<Longrightarrow>
   serializeJSONProperty h (Suc n) st k v = serializeJSONObject (serializeJSONProperty h n st) kvs"
  by (simp add: rv_simps)

lemma ser_zero_budget: "serializeJSONProperty h (Suc 0) st k v = Inl RangeError"
  by (simp add: rv_simps)

lemma redact_leaf:
  "plain v \<Longrightarrow> \<not> isObject v \<Longrightarrow> redactValueByKey h (Suc n) k v = Inr (redactTree k v)"
  by (cases v) (simp_all add: rv_simps Let_def)

lemma ser_leaf:
  "plain v \<Longrightarrow> \<not> isObject v \<Longrightarrow>
   serializeJSONProperty h (Suc (Suc n)) st k v = Inr (Some (redactTree k v))"
  by (cases v) (simp_all add: rv_simps Let_def)

lemma redact_object:
  "isObject v \<Longrightarrow> redactValueByKey h (Suc n) k v =
     (case serializeJSONProperty h n [] [] v of Inr (Some t) \<Rightarrow> Inr t | _ \<Rightarrow> Inr v)"
  by (cases v; simp add: rv_simps split: sum.split option.split)

lemma redactTree_object_key: "isObject v \<Longrightarrow> redactTree k v = redactTree k' v"
  by (cases v) simp_all

lemma stable_object_key: "isObject v \<Longrightarrow> stable k v = stable k' v"
  by (cases v) (simp_all add: stable_def)

lemma settledD1:
  "settled h n \<Longrightarrow> plain v \<Longrightarrow> stable k v \<Longrightarrow> 0 < n \<Longrightarrow>
   redactValueByKey h n k v = Inr v \<or> redactValueByKey h n k v = Inr (redactTree k v)"
  unfolding settled_def by blast

lemma settledD2:
  "settled h n \<Longrightarrow> plain v \<Longrightarrow> stable k v \<Longrightarrow>
   serializeJSONProperty h n st k v = Inl RangeError
   \<or> serializeJSONProperty h n st k v = Inr (Some (redactTree k v))"
  unfolding settled_def by blast

lemma settledD3:
  "settled h n \<Longrightarrow> plain v \<Longrightarrow> stable k v \<Longrightarrow> depth v + 2 \<le> n \<Longrightarrow>
   serializeJSONProperty h n st k v = Inr (Some (redactTree k v))"
  unfolding settled_def by blast

lemma settled_redact:
  assumes IH: "settled h n" and pv: "plain v" and sv: "stable k v"
  shows "redactValueByKey h (Suc n) k v = Inr v \<or> redactValueByKey h (Suc n) k v = Inr (redactTree k v)"
proof (cases "isObject v")
  case False
  with pv show ?thesis by (simp add: redact_leaf)
next
  case True
  from sv True have sv': "stable [] v" by (simp add: stable_object_key [of v k "[]"])
  from True have rt: "redactTree [] v = redactTree k v" by (rule redactTree_object_key)
  from settledD2 [OF IH pv sv', of "[]"] show ?thesis
    by (auto simp: redact_object [OF True] rt)
qed

lemma settled_ser_range:
  assumes IH: "settled h n" and pv: "plain v" and sv: "stable k v"
  shows "serializeJSONProperty h (Suc n) st k v = Inl RangeError
       \<or> serializeJSONProperty h (Suc n) st k v = Inr (Some (redactTree k v))"
proof (cases n)
  case 0
  then show ?thesis by (simp add: ser_zero_budget)
next
  case (Suc m)
  then have n0: "0 < n" by simp
  have H: "\<And>k v. plain v \<Longrightarrow> stable k v \<Longrightarrow>
        serializeJSONProperty h n st k v = Inl RangeError
        \<or> serializeJSONProperty h n st k v = Inr (Some (redactTree k v))"
    using IH by (rule settledD2)
  show ?thesis
  proof (cases v)
    case (Arr xs)
    from pv Arr have pxs: "list_all plain xs" by simp
    from sv Arr have sxs: "redactElements 0 (redactElements 0 xs) = redactElements 0 xs"
      by (simp add: stable_def)
    from settledD1 [OF IH pv sv n0] Arr
    consider "redactValueByKey h n k v = Inr (Arr xs)"
      | "redactValueByKey h n k v = Inr (Arr (redactElements 0 xs))" by auto
    then show ?thesis
    proof cases
      case 1
      from elems_range [of "serializeJSONProperty h n st", OF H pxs sxs]
      show ?thesis unfolding ser_Suc_Arr [OF 1] by (auto simp: serializeJSONArray_def Arr)
    next
      case 2
      have p2: "list_all plain (redactElements 0 xs)" using pxs by (rule plain_redact)
      have s2: "redactElements 0 (redactElements 0 (redactElements 0 xs))
                = redactElements 0 (redactElements 0 xs)" by (simp add: sxs)
      from elems_range [of "serializeJSONProperty h n st", OF H p2 s2]
      show ?thesis unfolding ser_Suc_Arr [OF 2] by (auto simp: serializeJSONArray_def Arr sxs)
    qed
  next
    case (Obj kvs)
    from pv Obj have pxs: "list_all plain (map snd kvs)" by simp
    from sv Obj have sxs: "redactMembers (redactMembers kvs) = redactMembers kvs"
      by (simp add: stable_def)
    from settledD1 [OF IH pv sv n0] Obj
    consider "redactValueByKey h n k v = Inr (Obj kvs)"
      | "redactValueByKey h n k v = Inr (Obj (redactMembers kvs))" by auto
    then show ?thesis
    proof cases
      case 1
      from members_range [of "serializeJSONProperty h n st", OF H pxs sxs]
      show ?thesis unfolding ser_Suc_Obj [OF 1] by (auto simp: serializeJSONObject_def Obj)
    next
      case 2
      have p2: "list_all plain (map snd (redactMembers kvs))" using pxs by (rule plain_redact)
      have s2: "redactMembers (redactMembers (redactMembers kvs))
                = redactMembers (redactMembers kvs)" by (simp add: sxs)
      from members_range [of "serializeJSONProperty h n st", OF H p2 s2]
      show ?thesis unfolding ser_Suc_Obj [OF 2] by (auto simp: serializeJSONObject_def Obj sxs)
    qed
  qed (use pv Suc in \<open>simp_all add: ser_leaf\<close>)
qed

lemma settled_ser_exact:
  assumes IH: "settled h n" and pv: "plain v" and sv: "stable k v" and dv: "depth v + 2 \<le> Suc n"
  shows "serializeJSONProperty h (Suc n) st k v = Inr (Some (redactTree k v))"
proof (cases "isObject v")
  case False
  from dv obtain m where "n = Suc m" by (cases n) auto
  with pv False show ?thesis by (simp add: ser_leaf)
next
  case True
  from True dv pv have n2: "2 \<le> n" by (cases v) simp_all
  then have n0: "0 < n" by simp
  have H: "\<And>k v. plain v \<Longrightarrow> stable k v \<Longrightarrow> depth v \<le> n - 2 \<Longrightarrow>
        serializeJSONProperty h n st k v = Inr (Some (redactTree k v))"
  proof -
    fix k v assume "plain v" "stable k v" and "depth v \<le> n - 2"
    with n2 have "depth v + 2 \<le> n" by simp
    with IH \<open>plain v\<close> \<open>stable k v\<close> show "serializeJSONProperty h n st k v = Inr (Some (redactTree k v))"
      by (rule settledD3)
  qed
  show ?thesis
  proof (cases v)
    case (Arr xs)
    from pv Arr have pxs: "list_all plain xs" by simp
    from sv Arr have sxs: "redactElements 0 (redactElements 0 xs) = redactElements 0 xs"
      by (simp add: stable_def)
    from dv Arr have dmax: "foldr max (map depth xs) 0 \<le> n - 2" by simp
    from settledD1 [OF IH pv sv n0] Arr
    consider "redactValueByKey h n k v = Inr (Arr xs)"
      | "redactValueByKey h n k v = Inr (Arr (redactElements 0 xs))" by auto
    then show ?thesis
    proof cases
      case 1
      have d1: "\<forall>x \<in> set xs. depth x \<le> n - 2"
        using depth_le_foldr_max dmax by (meson le_trans)
      from elems_exact [of "n - 2" "serializeJSONProperty h n st", OF H pxs sxs d1]
      show ?thesis unfolding ser_Suc_Arr [OF 1] by (simp add: serializeJSONArray_def Arr)
    next
      case 2
      have p2: "list_all plain (redactElements 0 xs)" using pxs by (rule plain_redact)
      have s2: "redactElements 0 (redactElements 0 (redactElements 0 xs))
                = redactElements 0 (redactElements 0 xs)" by (simp add: sxs)
      have d2: "\<forall>x \<in> set (redactElements 0 xs). depth x \<le> n - 2"
        using set_redactElements_depth dmax by (meson le_trans)
      from elems_exact [of "n - 2" "serializeJSONProperty h n st", OF H p2 s2 d2]
      show ?thesis unfolding ser_Suc_Arr [OF 2] by (simp add: serializeJSONArray_def Arr sxs)
    qed
  next
    case (Obj kvs)
    from pv Obj have pxs: "list_all plain (map snd kvs)" by simp
    from sv Obj have sxs: "redactMembers (redactMembers kvs) = redactMembers kvs"
      by (simp add: stable_def)
    from dv Obj have dmax: "foldr max (map depth (map snd kvs)) 0 \<le> n - 2" by simp
    from settledD1 [OF IH pv sv n0] Obj
    consider "redactValueByKey h n k v = Inr (Obj kvs)"
      | "redactValueByKey h n k v = Inr (Obj (redactMembers kvs))" by auto
    then show ?thesis
    proof cases
      case 1
      have d1: "\<forall>x \<in> set (map snd kvs). depth x \<le> n - 2"
        using depth_le_foldr_max dmax by (meson le_trans)
      from members_exact [of "n - 2" "serializeJSONProperty h n st", OF H pxs sxs d1]
      show ?thesis unfolding ser_Suc_Obj [OF 1] by (simp add: serializeJSONObject_def Obj)
    next
      case 2
      have p2: "list_all plain (map snd (redactMembers kvs))" using pxs by (rule plain_redact)
      have s2: "redactMembers (redactMembers (redactMembers kvs))
                = redactMembers (redactMembers kvs)" by (simp add: sxs)
      have "\<forall>x \<in> set (map snd (redactMembers kvs)).
               depth x \<le> foldr max (map depth (map snd (redactMembers kvs))) 0"
        using depth_le_foldr_max by blast
      then have d2: "\<forall>x \<in> set (map snd (redactMembers kvs)). depth x \<le> n - 2"
        using dmax by (simp only: depth_redact) (meson le_trans)
      from members_exact [of "n - 2" "serializeJSONProperty h n st", OF H p2 s2 d2]
      show ?thesis unfolding ser_Suc_Obj [OF 2] by (simp add: serializeJSONObject_def Obj sxs)
    qed
  qed (use True pv in simp_all)
qed

lemma settled_all: "settled h n"
proof (induction n)
  case 0
  show ?case by (simp add: settled_def rv_simps)
next
  case (Suc n)
  show ?case unfolding settled_def
    using settled_redact [OF Suc] settled_ser_range [OF Suc] settled_ser_exact [OF Suc]
    by blast
qed

lemma sanitizeArg_object:
  "isObject v \<Longrightarrow> sanitizeArg h n v =
     (case serializeJSONProperty h n [] [] v of Inr (Some t) \<Rightarrow> t | _ \<Rightarrow> v)"
  by (cases v; simp add: sanitizeArg_def split: sum.split option.split)

lemma sanitize_stable:
  assumes "plain v" "isObject v" "stable [] v" "depth v + 2 \<le> n"
  shows "sanitizeArgs h n [v] = [redactTree [] v]"
  using settledD3 [OF settled_all assms(1,3,4), of h "[]"]
  by (simp add: sanitizeArgs_def sanitizeArg_object [OF assms(2)])

lemma sanitize_stable_any:
  assumes "plain v" "isObject v" "stable [] v"
  shows "sanitizeArgs h n [v] = [v] \<or> sanitizeArgs h n [v] = [redactTree [] v]"
  using settledD2 [OF settled_all assms(1,3), of h n "[]"]
  by (auto simp add: sanitizeArgs_def sanitizeArg_object [OF assms(2)])


subsection \<open>Plain values keep their shape\<close>

lemma elems_shape:
  assumes H: "\<And>k v r. plain v \<Longrightarrow> ser k v = Inr r \<Longrightarrow> \<exists>t. r = Some t \<and> plain t \<and> shape t = shape v"
  shows "list_all plain xs \<Longrightarrow> serializeElements ser i xs = Inr ts
         \<Longrightarrow> list_all plain ts \<and> map shape ts = map shape xs"
proof (induction xs arbitrary: i ts)
  case Nil
  then show ?case by simp
next
  case (Cons x xs)
  from Cons.prems(1) have px: "plain x" and pxs: "list_all plain xs" by simp_all
  from Cons.prems(2) obtain r ts' where r: "ser (show_nat i) x = Inr r"
    and ts': "serializeElements ser (Suc i) xs = Inr ts'"
    and ts: "ts = (case r of None \<Rightarrow> Null | Some t \<Rightarrow> t) # ts'"
    by (auto split: sum.splits)
  from H [OF px r] obtain t where t: "r = Some t" "plain t" "shape t = shape x" by blast
  from Cons.IH [OF pxs ts'] t ts show ?case by simp
qed

lemma members_shape:
  assumes H: "\<And>k v r. plain v \<Longrightarrow> ser k v = Inr r \<Longrightarrow> \<exists>t. r = Some t \<and> plain t \<and> shape t = shape v"
  shows "list_all plain (map snd kvs) \<Longrightarrow> serializeMembers ser kvs = Inr mems
         \<Longrightarrow> list_all plain (map snd mems)
             \<and> map (\<lambda>kv. (fst kv, shape (snd kv))) mems = map (\<lambda>kv. (fst kv, shape (snd kv))) kvs"
proof (induction kvs arbitrary: mems)
  case Nil
  then show ?case by simp
next
  case (Cons kv kvs)
  obtain k x where kv: "kv = (k, x)" by (cases kv)
  from Cons.prems(1) kv have px: "plain x" and pxs: "list_all plain (map snd kvs)" by simp_all
  from Cons.prems(2) kv obtain r ms' where r: "ser k x = Inr r"
    and ms': "serializeMembers ser kvs = Inr ms'"
    and ms: "mems = (case r of None \<Rightarrow> ms' | Some t \<Rightarrow> (k, t) # ms')"
    by (auto split: sum.splits)
  from H [OF px r] obtain t where t: "r = Some t" "plain t" "shape t = shape x" by blast
  from Cons.IH [OF pxs ms'] t ms kv show ?case by simp
qed

lemma keepsD1:
  "keeps h n \<Longrightarrow> plain v \<Longrightarrow> redactValueByKey h n k v = Inr v' \<Longrightarrow> plain v' \<and> shape v' = shape v"
  unfolding keeps_def by blast

lemma keepsD2:
  "keeps h n \<Longrightarrow> plain v \<Longrightarrow> serializeJSONProperty h n st k v = Inr r \<Longrightarrow>
   \<exists>t. r = Some t \<and> plain t \<and> shape t = shape v"
  unfolding keeps_def by blast

lemma shape_redact_leaf: "\<not> isObject v \<Longrightarrow> shape (redactTree k v) = shape v"
  by (cases v) simp_all

lemma keeps_redact:
  assumes IH: "keeps h n" and pv: "plain v" and r: "redactValueByKey h (Suc n) k v = Inr v'"
  shows "plain v' \<and> shape v' = shape v"
proof (cases "isObject v")
  case False
  with pv r have "v' = redactTree k v" by (simp add: redact_leaf)
  with pv False show ?thesis by (simp add: plain_redact shape_redact_leaf)
next
  case True
  show ?thesis
  proof (cases "serializeJSONProperty h n [] [] v")
    case (Inl e)
    with r True have "v' = v" by (simp add: redact_object)
    with pv show ?thesis by simp
  next
    case (Inr q)
    from keepsD2 [OF IH pv Inr] obtain t where t: "q = Some t" "plain t" "shape t = shape v" by blast
    with r True Inr have "v' = t" by (simp add: redact_object)
    with t show ?thesis by simp
  qed
qed

lemma ser_Suc_Inr:
  "serializeJSONProperty h (Suc n) st k v = Inr r \<Longrightarrow> \<exists>v'. redactValueByKey h n k v = Inr v'"
  by (cases "redactValueByKey h n k v") (simp_all add: rv_simps)

lemma ser_Suc_scalar:
  "redactValueByKey h n k v = Inr v' \<Longrightarrow> \<not> isObject v' \<Longrightarrow> v' \<noteq> Undefined \<Longrightarrow>
   serializeJSONProperty h (Suc n) st k v = Inr (Some v')"
  by (cases v') (simp_all add: rv_simps)

lemma keeps_ser:
  assumes IH: "keeps h n" and pv: "plain v" and r: "serializeJSONProperty h (Suc n) st k v = Inr r"
  shows "\<exists>t. r = Some t \<and> plain t \<and> shape t = shape v"
proof -
  from ser_Suc_Inr [OF r] obtain v' where v': "redactValueByKey h n k v = Inr v'" by blast
  from keepsD1 [OF IH pv v'] have pv': "plain v'" and sh: "shape v' = shape v" by simp_all
  have H: "\<And>k v r. plain v \<Longrightarrow> serializeJSONProperty h n st k v = Inr r
            \<Longrightarrow> \<exists>t. r = Some t \<and> plain t \<and> shape t = shape v"
    using IH by (rule keepsD2)
  show ?thesis
  proof (cases v')
    case (Arr ys)
    from r have "serializeJSONArray (serializeJSONProperty h n st) ys = Inr r"
      using ser_Suc_Arr [of h n k v ys st] v' Arr by simp
    then obtain ts where ts: "serializeElements (serializeJSONProperty h n st) 0 ys = Inr ts"
      and rt: "r = Some (Arr ts)" by (auto simp: serializeJSONArray_def split: sum.splits)
    from pv' Arr have "list_all plain ys" by simp
    from elems_shape [of "serializeJSONProperty h n st", OF H this ts] rt sh Arr
    show ?thesis by simp
  next
    case (Obj kvs)
    from r have "serializeJSONObject (serializeJSONProperty h n st) kvs = Inr r"
      using ser_Suc_Obj [of h n k v kvs st] v' Obj by simp
    then obtain mems where ms: "serializeMembers (serializeJSONProperty h n st) kvs = Inr mems"
      and rt: "r = Some (Obj mems)" by (auto simp: serializeJSONObject_def split: sum.splits)
    from pv' Obj have "list_all plain (map snd kvs)" by simp
    from members_shape [of "serializeJSONProperty h n st", OF H this ms] rt sh Obj
    show ?thesis by simp
  next
    case Undefined
    with pv' show ?thesis by simp
  next
    case (Ref a)
    with pv' show ?thesis by simp
  next
    case Null
    with ser_Suc_scalar [OF v', of st] r pv' sh show ?thesis by simp
  next
    case (Bool b)
    with ser_Suc_scalar [OF v', of st] r pv' sh show ?thesis by simp
  next
    case (Num i)
    with ser_Suc_scalar [OF v', of st] r pv' sh show ?thesis by simp
  next
    case (Str s)
    with ser_Suc_scalar [OF v', of st] r pv' sh show ?thesis by simp
  qed
qed

lemma keeps_all: "keeps h n"
proof (induction n)
  case 0
  show ?case by (simp add: keeps_def rv_simps)
next
  case (Suc n)
  show ?case unfolding keeps_def
    using keeps_redact [OF Suc] keeps_ser [OF Suc] by blast
qed

lemma sanitizeArg_shape: "plain v \<Longrightarrow> shape (sanitizeArg h n v) = shape v"
proof (cases "isObject v")
  case True
  assume pv: "plain v"
  show ?thesis
  proof (cases "serializeJSONProperty h n [] [] v")
    case (Inl e)
    with True show ?thesis by (simp add: sanitizeArg_object)
  next
    case (Inr q)
    from keepsD2 [OF keeps_all pv Inr] obtain t where "q = Some t" "shape t = shape v" by blast
    with True Inr show ?thesis by (simp add: sanitizeArg_object)
  qed
next
  case False
  then show ?thesis by (cases v) (simp_all add: sanitizeArg_def)
qed

lemma sanitizeArgs_shape: "list_all plain args \<Longrightarrow> map shape (sanitizeArgs h n args) = map shape args"
  by (induction args) (simp_all add: sanitizeArgs_def sanitizeArg_shape)

subsection \<open>Cyclic values\<close>


lemma reaches_first: "reaches h v w \<Longrightarrow> \<exists>c \<in> set (children h v). c = w \<or> reaches h c w"
  by (erule reaches.cases) auto

lemma cyclic_child: "cyclic h v \<Longrightarrow> \<exists>c \<in> set (children h v). cyclic h c"
proof -
  assume "cyclic h v"
  then obtain a where a: "v = Ref a \<or> reaches h v (Ref a)" and loop: "reaches h (Ref a) (Ref a)"
    unfolding cyclic_def by blast
  from a loop have "reaches h v (Ref a)" by auto
  from reaches_first [OF this] obtain c where c: "c \<in> set (children h v)"
    and "c = Ref a \<or> reaches h c (Ref a)" by blast
  with loop have "cyclic h c" unfolding cyclic_def by blast
  with c show ?thesis by blast
qed

lemma cyclic_isObject: "cyclic h v \<Longrightarrow> isObject v"
  by (drule cyclic_child) (cases v; simp)

lemma elems_fail:
  "x \<in> set xs \<Longrightarrow> (\<And>k. \<exists>e. ser k x = Inl e) \<Longrightarrow> \<exists>e. serializeElements ser i xs = Inl e"
proof (induction xs arbitrary: i)
  case Nil
  then show ?case by simp
next
  case (Cons y ys)
  show ?case
  proof (cases "x = y")
    case True
    from Cons.prems(2) [of "show_nat i"] True show ?thesis by auto
  next
    case False
    with Cons.prems(1) have "x \<in> set ys" by simp
    from Cons.IH [OF this Cons.prems(2), of "Suc i"] show ?thesis
      by (auto split: sum.splits)
  qed
qed

lemma members_fail:
  "x \<in> set (map snd kvs) \<Longrightarrow> (\<And>k. \<exists>e. ser k x = Inl e) \<Longrightarrow> \<exists>e. serializeMembers ser kvs = Inl e"
proof (induction kvs)
  case Nil
  then show ?case by simp
next
  case (Cons kv kvs)
  obtain k y where kv: "kv = (k, y)" by (cases kv)
  show ?case
  proof (cases "x = y")
    case True
    from Cons.prems(2) [of k] True kv show ?thesis by auto
  next
    case False
    with Cons.prems(1) kv have "x \<in> set (map snd kvs)" by simp
    from Cons.IH [OF this Cons.prems(2)] kv show ?thesis
      by (auto split: sum.splits)
  qed
qed

lemma array_fail:
  "x \<in> set xs \<Longrightarrow> (\<And>k. \<exists>e. ser k x = Inl e) \<Longrightarrow> \<exists>e. serializeJSONArray ser xs = Inl e"
  using elems_fail [of x xs ser 0] by (auto simp: serializeJSONArray_def)

lemma object_fail:
  "x \<in> set (map snd kvs) \<Longrightarrow> (\<And>k. \<exists>e. ser k x = Inl e) \<Longrightarrow> \<exists>e. serializeJSONObject ser kvs = Inl e"
  using members_fail [of x kvs ser] by (auto simp: serializeJSONObject_def)

lemma doomedD1: "doomed h n \<Longrightarrow> cyclic h v \<Longrightarrow> \<exists>e. serializeJSONProperty h n st k v = Inl e"
  unfolding doomed_def by blast

lemma doomedD2:
  "doomed h n \<Longrightarrow> cyclic h v \<Longrightarrow>
   redactValueByKey h n k v = Inl RangeError \<or> redactValueByKey h n k v = Inr v"
  unfolding doomed_def by blast

lemma doomed_redact:
  assumes IH: "doomed h n" and cv: "cyclic h v"
  shows "redactValueByKey h (Suc n) k v = Inr v"
proof -
  from doomedD1 [OF IH cv, of "[]" "[]"] obtain e where "serializeJSONProperty h n [] [] v = Inl e"
    by blast
  with cyclic_isObject [OF cv] show ?thesis by (simp add: redact_object)
qed

lemma ser_Suc_Inl:
  "redactValueByKey h n k v = Inl e \<Longrightarrow> serializeJSONProperty h (Suc n) st k v = Inl e"
  by (simp add: rv_simps)

lemma ser_Suc_Ref:
  "redactValueByKey h n k v = Inr (Ref a) \<Longrightarrow>
   serializeJSONProperty h (Suc n) st k v =
     (if a \<in> set st then Inl TypeError
      else (case h a of
              ArrCell xs \<Rightarrow> serializeJSONArray (serializeJSONProperty h n (a # st)) xs
            | ObjCell kvs \<Rightarrow> serializeJSONObject (serializeJSONProperty h n (a # st)) kvs))"
  by (simp add: rv_simps)

lemma doomed_ser:
  assumes IH: "doomed h n" and cv: "cyclic h v"
  shows "\<exists>e. serializeJSONProperty h (Suc n) st k v = Inl e"
proof -
  from cyclic_child [OF cv] obtain c where c: "c \<in> set (children h v)" and cc: "cyclic h c" by blast
  have F: "\<And>st k. \<exists>e. serializeJSONProperty h n st k c = Inl e"
    using IH cc by (rule doomedD1)
  from doomedD2 [OF IH cv, of k]
  show ?thesis
  proof
    assume "redactValueByKey h n k v = Inl RangeError"
    then show ?thesis by (simp add: ser_Suc_Inl)
  next
    assume r: "redactValueByKey h n k v = Inr v"
    show ?thesis
    proof (cases v)
      case (Arr xs)
      with c have "c \<in> set xs" by simp
      from array_fail [OF this, of "serializeJSONProperty h n st"] F
      show ?thesis using ser_Suc_Arr [of h n k v xs st] r Arr by simp
    next
      case (Obj kvs)
      with c have "c \<in> set (map snd kvs)" by simp
      from object_fail [OF this, of "serializeJSONProperty h n st"] F
      show ?thesis using ser_Suc_Obj [of h n k v kvs st] r Obj by simp
    next
      case (Ref a)
      show ?thesis
      proof (cases "a \<in> set st")
        case True
        with r Ref show ?thesis by (simp add: ser_Suc_Ref)
      next
        case False
        show ?thesis
        proof (cases "h a")
          case (ArrCell xs)
          with c Ref have "c \<in> set xs" by simp
          from array_fail [OF this, of "serializeJSONProperty h n (a # st)"] F
          show ?thesis using ser_Suc_Ref [of h n k v a st] r Ref False ArrCell by simp
        next
          case (ObjCell kvs)
          with c Ref have "c \<in> set (map snd kvs)" by simp
          from object_fail [OF this, of "serializeJSONProperty h n (a # st)"] F
          show ?thesis using ser_Suc_Ref [of h n k v a st] r Ref False ObjCell by simp
        qed
      qed
    qed (use c in simp_all)
  qed
qed

lemma doomed_all: "doomed h n"
proof (induction n)
  case 0
  show ?case by (simp add: doomed_def rv_simps)
next
  case (Suc n)
  show ?case unfolding doomed_def
    using doomed_redact [OF Suc] doomed_ser [OF Suc] by blast
qed

lemma selfHeap_cyclic: "cyclic selfHeap (Ref 0)"
proof -
  have "Ref 0 \<in> set (children selfHeap (Ref 0))" by (simp add: selfHeap_def)
  then have "reaches selfHeap (Ref 0) (Ref 0)" by (rule reaches.child)
  then show ?thesis unfolding cyclic_def by blast
qed

text \<open>
  C2, as the code has it. There is no visited set and no empty container: for a value that
  is or contains an object containing itself, \<open>sanitizeArgs\<close> returns, for every stack
  budget, the argument itself, with the cycle and every secret in it untouched. It
  returns because the call stack is finite: \<^verbatim>\<open>JSON.stringify\<close> throws (RangeError or
  TypeError) and the \<^verbatim>\<open>catch\<close> of \<^verbatim>\<open>sanitizeArgs\<close> hands back \<^verbatim>\<open>arg\<close>.
\<close>

theorem cyclic_returned_unchanged:
  assumes "cyclic h arg"
  shows "sanitizeArgs h n [arg] = [arg]"
proof -
  from doomedD1 [OF doomed_all assms, of n "[]" "[]"]
  obtain e where "serializeJSONProperty h n [] [] arg = Inl e" by blast
  with cyclic_isObject [OF assms] show ?thesis
    by (simp add: sanitizeArgs_def sanitizeArg_object)
qed

theorem cyclic_returned_unchanged_witness:
  "cyclic selfHeap (Ref 0) \<and> sanitizeArgs selfHeap 10000 [Ref 0] = [Ref 0]"
  using selfHeap_cyclic cyclic_returned_unchanged [OF selfHeap_cyclic, of 10000] by simp

text \<open>
  C2 as stated fails: the mapping \<^verbatim>\<open>{request: o}\<close> with \<^verbatim>\<open>o.self === o\<close> comes back
  as it went in, and not with the self-referential branch replaced by an empty object.
\<close>

theorem cyclic_counterexample:
  "sanitizeArgs selfHeap 6 [Obj [(''request'', Ref 0)]] = [Obj [(''request'', Ref 0)]]
   \<and> sanitizeArgs selfHeap 6 [Obj [(''request'', Ref 0)]]
      \<noteq> [Obj [(''request'', Obj [(''password'', Str ''***''), (''self'', Obj [])])]]"
  by code_simp

text \<open>
  C1, as the code has it. When \<^verbatim>\<open>JSON.stringify\<close> throws on an object, both
  \<^verbatim>\<open>sanitizeArgs\<close> and \<^verbatim>\<open>redactValueByKey\<close> catch the exception and return the
  object they were given, unchanged; no exception reaches the caller.
\<close>

theorem failure_returns_raw:
  assumes "isObject v" and "serializeJSONProperty h n [] [] v = Inl e"
  shows "sanitizeArgs h n [v] = [v] \<and> redactValueByKey h (Suc n) key v = Inr v"
  using assms by (simp add: sanitizeArgs_def sanitizeArg_object redact_object)

theorem failure_returns_raw_witness:
  "isObject (Ref 0) \<and> serializeJSONProperty selfHeap 4 [] [] (Ref 0) = Inl TypeError
   \<and> sanitizeArgs selfHeap 4 [Ref 0] = [Ref 0]
   \<and> redactValueByKey selfHeap (Suc 4) ''session'' (Ref 0) = Inr (Ref 0)"
proof -
  have a: "isObject (Ref 0)" by simp
  have b: "serializeJSONProperty selfHeap 4 [] [] (Ref 0) = Inl TypeError" by code_simp
  from a b failure_returns_raw [OF a b, of "''session''"] show ?thesis by simp
qed

text \<open>
  C1 as stated fails: on the object at address 0 of \<open>selfHeap\<close>, which holds a password
  and a reference to itself, serialization throws a TypeError and \<open>sanitizeArgs\<close> returns
  the object itself, not the placeholder \<^verbatim>\<open>"***"\<close>; the password is still in it.
\<close>

theorem failure_counterexample:
  "serializeJSONProperty selfHeap 4 [] [] (Ref 0) = Inl TypeError
   \<and> sanitizeArgs selfHeap 4 [Ref 0] = [Ref 0]
   \<and> sanitizeArgs selfHeap 4 [Ref 0] \<noteq> [Str ''***'']
   \<and> selfHeap 0 = ObjCell [(''password'', Str ''hunter2''), (''self'', Ref 0)]"
  by code_simp

subsection \<open>Objects with one sensitive entry\<close>


lemma fullMask_redact: "k \<in> set fullMaskKeys \<Longrightarrow> redactStringByKey k s = ''***''"
  by (simp add: redactStringByKey_def)

text \<open>
  C3. For a key that lowers to one of \<^verbatim>\<open>password\<close>, \<^verbatim>\<open>pass\<close>, \<^verbatim>\<open>pwd\<close>,
  \<^verbatim>\<open>secret\<close>, \<^verbatim>\<open>token\<close>, \<^verbatim>\<open>auth\<close>, \<^verbatim>\<open>authorization\<close> and for every string \<open>S\<close>,
  sanitizing the one-entry object \<^verbatim>\<open>{K: S}\<close> yields \<^verbatim>\<open>{K: "***"}\<close>, whatever the
  stack budget from 3 on (below 3 the stack is exhausted before the property is reached).
\<close>

theorem full_mask_keys:
  assumes "toLowerCase K \<in> set [''password'', ''pass'', ''pwd'', ''secret'', ''token'', ''auth'', ''authorization'']"
    and "3 \<le> n"
  shows "sanitizeArgs h n [Obj [(K, Str S)]] = [Obj [(K, Str ''***'')]]"
proof -
  from assms(1) have k: "toLowerCase K \<in> set fullMaskKeys" by (auto simp: fullMaskKeys_def)
  have r: "redactTree [] (Obj [(K, Str S)]) = Obj [(K, Str ''***'')]"
    by (simp add: fullMask_redact [OF k])
  have st: "stable [] (Obj [(K, Str S)])"
    by (simp add: stable_def fullMask_redact [OF k])
  have "sanitizeArgs h n [Obj [(K, Str S)]] = [redactTree [] (Obj [(K, Str S)])]"
    using assms(2) by (intro sanitize_stable st) simp_all
  with r show ?thesis by simp
qed

theorem full_mask_keys_witness:
  "toLowerCase ''Authorization'' \<in> set [''password'', ''pass'', ''pwd'', ''secret'', ''token'', ''auth'', ''authorization'']
   \<and> (3::nat) \<le> 3
   \<and> sanitizeArgs emptyHeap 3 [Obj [(''Authorization'', Str ''Basic dXNlcjpwdw=='')]]
       = [Obj [(''Authorization'', Str ''***'')]]"
proof -
  have a: "toLowerCase ''Authorization'' \<in> set [''password'', ''pass'', ''pwd'', ''secret'', ''token'', ''auth'', ''authorization'']"
    by code_simp
  have b: "(3::nat) \<le> 3" by simp
  from a b full_mask_keys [OF a b, of emptyHeap "''Basic dXNlcjpwdw==''"] show ?thesis by simp
qed

text \<open>
  C4 as stated fails in its second half: the string \<^verbatim>\<open>"123456"\<close> under \<^verbatim>\<open>code\<close>
  becomes the six-star mask \<^verbatim>\<open>"******"\<close> of the code keys, not \<^verbatim>\<open>"***"\<close>.
\<close>

theorem code_key_counterexample:
  "sanitizeArgs emptyHeap 3 [Obj [(''code'', Str ''123456'')]] = [Obj [(''code'', Str ''******'')]]
   \<and> sanitizeArgs emptyHeap 3 [Obj [(''code'', Str ''123456'')]] \<noteq> [Obj [(''code'', Str ''***'')]]"
  by code_simp

text \<open>
  C4, as the code has it: \<^verbatim>\<open>{code: 123456}\<close> sanitizes to \<^verbatim>\<open>{code: 0}\<close> and
  \<^verbatim>\<open>{code: "123456"}\<close> to \<^verbatim>\<open>{code: "******"}\<close>.
\<close>

theorem code_key_masks:
  assumes "3 \<le> n"
  shows "sanitizeArgs h n [Obj [(''code'', Num 123456)]] = [Obj [(''code'', Num 0)]]
       \<and> sanitizeArgs h n [Obj [(''code'', Str ''123456'')]] = [Obj [(''code'', Str ''******'')]]"
proof -
  have k: "toLowerCase ''code'' = ''code''" by code_simp
  have n1: "redactNumberByKey ''code'' i = 0" for i by (simp add: redactNumberByKey_def numericCodeKeys_def)
  have s1: "redactStringByKey ''code'' s = ''******''" for s
    by (simp add: redactStringByKey_def fullMaskKeys_def codeKeys_def)
  have "sanitizeArgs h n [Obj [(''code'', Num 123456)]] = [redactTree [] (Obj [(''code'', Num 123456)])]"
    using assms by (intro sanitize_stable) (simp_all add: stable_def k n1)
  moreover have "sanitizeArgs h n [Obj [(''code'', Str ''123456'')]] = [redactTree [] (Obj [(''code'', Str ''123456'')])]"
    using assms by (intro sanitize_stable) (simp_all add: stable_def k s1)
  ultimately show ?thesis by (simp add: k n1 s1)
qed

theorem code_key_masks_witness:
  "(3::nat) \<le> 7
   \<and> sanitizeArgs emptyHeap 7 [Obj [(''code'', Num 123456)]] = [Obj [(''code'', Num 0)]]
   \<and> sanitizeArgs emptyHeap 7 [Obj [(''code'', Str ''123456'')]] = [Obj [(''code'', Str ''******'')]]"
proof -
  have a: "(3::nat) \<le> 7" by simp
  from a code_key_masks [OF a, of emptyHeap] show ?thesis by simp
qed

subsection \<open>Shape of the output\<close>


text \<open>
  C5 as stated fails for a value outside JSON: a property whose value is \<^verbatim>\<open>undefined\<close>
  is dropped by the \<^verbatim>\<open>JSON.stringify\<close> round trip, so the key set of the output differs.
\<close>

theorem shape_counterexample:
  "sanitizeArgs emptyHeap 4 [Obj [(''id'', Num 7), (''note'', Undefined)]] = [Obj [(''id'', Num 7)]]
   \<and> map shape (sanitizeArgs emptyHeap 4 [Obj [(''id'', Num 7), (''note'', Undefined)]])
       \<noteq> map shape [Obj [(''id'', Num 7), (''note'', Undefined)]]"
  by code_simp

lemma token_tree:
  "redactTree [] (Arr [Obj [(''token'', Str ''abc'')], Obj [(''token'', Str ''def'')]])
     = Arr [Obj [(''token'', Str ''***'')], Obj [(''token'', Str ''***'')]]"
  by code_simp

lemma token_tree_stable:
  "stable [] (Arr [Obj [(''token'', Str ''abc'')], Obj [(''token'', Str ''def'')]])"
  by code_simp

lemma token_obj:
  "redactTree [] (Obj [(''token'', Str s)]) = Obj [(''token'', Str ''***'')]"
proof -
  have "toLowerCase ''token'' = ''token''" by code_simp
  then show ?thesis by (simp add: redactStringByKey_def fullMaskKeys_def)
qed

lemma token_obj_stable: "stable [] (Obj [(''token'', Str s)])"
  by (simp only: stable_def token_obj)

text \<open>
  C5, as the code has it. For arguments that are JSON data (built from \<^verbatim>\<open>null\<close>,
  booleans, numbers, strings, arrays and objects, with no \<^verbatim>\<open>undefined\<close> and no shared
  or cyclic part) the output has the shape of the input, for every stack budget: every
  object keeps its keys in order and every array its length. The array
  \<^verbatim>\<open>[{token: "abc"}, {token: "def"}]\<close> sanitizes to
  \<^verbatim>\<open>[{token: "***"}, {token: "***"}]\<close>, as one argument (budget from 4 on) and as the
  argument list itself (budget from 3 on).
\<close>

theorem shape_preserved:
  "(list_all plain args \<longrightarrow> map shape (sanitizeArgs h n args) = map shape args)
   \<and> (4 \<le> n \<longrightarrow>
        sanitizeArgs h n [Arr [Obj [(''token'', Str ''abc'')], Obj [(''token'', Str ''def'')]]]
          = [Arr [Obj [(''token'', Str ''***'')], Obj [(''token'', Str ''***'')]]])
   \<and> (3 \<le> n \<longrightarrow>
        sanitizeArgs h n [Obj [(''token'', Str ''abc'')], Obj [(''token'', Str ''def'')]]
          = [Obj [(''token'', Str ''***'')], Obj [(''token'', Str ''***'')]])"
proof (intro conjI impI)
  assume "list_all plain args"
  then show "map shape (sanitizeArgs h n args) = map shape args" by (rule sanitizeArgs_shape)
next
  assume n: "4 \<le> n"
  have "sanitizeArgs h n [Arr [Obj [(''token'', Str ''abc'')], Obj [(''token'', Str ''def'')]]]
        = [redactTree [] (Arr [Obj [(''token'', Str ''abc'')], Obj [(''token'', Str ''def'')]])]"
    using n by (intro sanitize_stable token_tree_stable) simp_all
  then show "sanitizeArgs h n [Arr [Obj [(''token'', Str ''abc'')], Obj [(''token'', Str ''def'')]]]
          = [Arr [Obj [(''token'', Str ''***'')], Obj [(''token'', Str ''***'')]]]"
    by (simp only: token_tree)
next
  assume n: "3 \<le> n"
  have one: "sanitizeArgs h n [Obj [(''token'', Str s)]] = [Obj [(''token'', Str ''***'')]]" for s
  proof -
    have "sanitizeArgs h n [Obj [(''token'', Str s)]] = [redactTree [] (Obj [(''token'', Str s)])]"
      using n by (intro sanitize_stable token_obj_stable) simp_all
    then show ?thesis by (simp only: token_obj)
  qed
  from one [of "''abc''"] one [of "''def''"]
  show "sanitizeArgs h n [Obj [(''token'', Str ''abc'')], Obj [(''token'', Str ''def'')]]
          = [Obj [(''token'', Str ''***'')], Obj [(''token'', Str ''***'')]]"
    by (simp add: sanitizeArgs_def)
qed

theorem shape_preserved_witness:
  "list_all plain [Obj [(''user'', Obj [(''password'', Str ''x''), (''tags'', Arr [Str ''a'', Null])])], Num 3]
   \<and> map shape (sanitizeArgs emptyHeap 9
        [Obj [(''user'', Obj [(''password'', Str ''x''), (''tags'', Arr [Str ''a'', Null])])], Num 3])
      = map shape [Obj [(''user'', Obj [(''password'', Str ''x''), (''tags'', Arr [Str ''a'', Null])])], Num 3]
   \<and> (4::nat) \<le> 9
   \<and> sanitizeArgs emptyHeap 9 [Arr [Obj [(''token'', Str ''abc'')], Obj [(''token'', Str ''def'')]]]
          = [Arr [Obj [(''token'', Str ''***'')], Obj [(''token'', Str ''***'')]]]
   \<and> (3::nat) \<le> 9
   \<and> sanitizeArgs emptyHeap 9 [Obj [(''token'', Str ''abc'')], Obj [(''token'', Str ''def'')]]
          = [Obj [(''token'', Str ''***'')], Obj [(''token'', Str ''***'')]]"
proof -
  have a: "list_all plain [Obj [(''user'', Obj [(''password'', Str ''x''), (''tags'', Arr [Str ''a'', Null])])], Num 3]"
    by simp
  have b: "(4::nat) \<le> 9" "(3::nat) \<le> 9" by simp_all
  from a b shape_preserved [of "[Obj [(''user'', Obj [(''password'', Str ''x''), (''tags'', Arr [Str ''a'', Null])])], Num 3]" emptyHeap 9]
  show ?thesis by simp
qed

subsection \<open>Identifier keys\<close>


lemma identifier_disjoint:
  "list_all (\<lambda>k. k \<notin> set fullMaskKeys \<and> k \<notin> set codeKeys) identifierKeys"
  by code_simp

lemma identifier_redact:
  assumes "k \<in> set identifierKeys"
  shows "redactStringByKey k s = maskEmail s"
proof -
  from identifier_disjoint assms have "k \<notin> set fullMaskKeys \<and> k \<notin> set codeKeys"
    unfolding list_all_iff by blast
  with assms show ?thesis by (simp add: redactStringByKey_def)
qed

lemma redact_Str:
  "redactValueByKey h (Suc n) K (Str S) = Inr (Str (redactStringByKey (toLowerCase K) S))"
  by (simp add: rv_simps)

text \<open>
  C6 as stated fails: the string \<^verbatim>\<open>"alice"\<close> under \<^verbatim>\<open>username\<close> is not email-shaped and
  is returned whole. No partial mask (such as \<^verbatim>\<open>"a***"\<close>) is applied to it.
\<close>

theorem identifier_counterexample:
  "redactValueByKey emptyHeap (Suc 0) ''username'' (Str ''alice'') = Inr (Str ''alice'')
   \<and> sanitizeArgs emptyHeap 3 [Obj [(''username'', Str ''alice'')]] = [Obj [(''username'', Str ''alice'')]]
   \<and> sanitizeArgs emptyHeap 3 [Obj [(''username'', Str ''alice'')]] \<noteq> [Obj [(''username'', Str ''a***'')]]"
  by code_simp

lemma email_example_tree:
  "redactTree [] (Obj [(''email'', Str ''user@example.com'')]) = Obj [(''email'', Str ''u***@example.com'')]"
  by code_simp

lemma email_example_stable: "stable [] (Obj [(''email'', Str ''user@example.com'')])"
  by code_simp

text \<open>
  C6, as the code has it. Under a key that lowers to \<^verbatim>\<open>email\<close>, \<^verbatim>\<open>appleid\<close>,
  \<^verbatim>\<open>apple_id\<close>, \<^verbatim>\<open>username\<close> or \<^verbatim>\<open>user\<close>, a string value is handed to
  \<open>maskEmail\<close> (and not to \<open>redactString\<close>), whatever it looks like. \<open>maskEmail\<close>
  rewrites the email-shaped substrings only: a string with none is returned unchanged.
  \<^verbatim>\<open>{email: "user@example.com"}\<close> sanitizes to \<^verbatim>\<open>{email: "u***@example.com"}\<close>.
\<close>

theorem identifier_mask:
  "(toLowerCase K \<in> set identifierKeys \<longrightarrow>
      redactValueByKey h (Suc n) K (Str S) = Inr (Str (maskEmail S)))
   \<and> (\<not> occurs rx_email S \<longrightarrow> maskEmail S = S)
   \<and> (3 \<le> n \<longrightarrow> sanitizeArgs h n [Obj [(''email'', Str ''user@example.com'')]]
                    = [Obj [(''email'', Str ''u***@example.com'')]])"
proof (intro conjI impI)
  assume "toLowerCase K \<in> set identifierKeys"
  then show "redactValueByKey h (Suc n) K (Str S) = Inr (Str (maskEmail S))"
    by (simp add: redact_Str identifier_redact)
next
  assume "\<not> occurs rx_email S"
  then show "maskEmail S = S" unfolding maskEmail_def by (rule replaceAll_no_occurrence)
next
  assume n: "3 \<le> n"
  have "sanitizeArgs h n [Obj [(''email'', Str ''user@example.com'')]]
        = [redactTree [] (Obj [(''email'', Str ''user@example.com'')])]"
    using n by (intro sanitize_stable email_example_stable) simp_all
  then show "sanitizeArgs h n [Obj [(''email'', Str ''user@example.com'')]]
                    = [Obj [(''email'', Str ''u***@example.com'')]]"
    by (simp only: email_example_tree)
qed

theorem identifier_mask_witness:
  "toLowerCase ''AppleID'' \<in> set identifierKeys
   \<and> redactValueByKey emptyHeap (Suc 0) ''AppleID'' (Str ''jane.doe@icloud.com'')
       = Inr (Str (maskEmail ''jane.doe@icloud.com''))
   \<and> maskEmail ''jane.doe@icloud.com'' = ''j***@icloud.com''
   \<and> \<not> occurs rx_email ''alice''
   \<and> maskEmail ''alice'' = ''alice''
   \<and> (3::nat) \<le> 5
   \<and> sanitizeArgs emptyHeap 5 [Obj [(''email'', Str ''user@example.com'')]]
        = [Obj [(''email'', Str ''u***@example.com'')]]"
proof -
  have a: "toLowerCase ''AppleID'' \<in> set identifierKeys" by code_simp
  have b: "\<not> occurs rx_email ''alice''" unfolding occurs_iff_found by code_simp
  have c: "(3::nat) \<le> 5" by simp
  have d: "maskEmail ''jane.doe@icloud.com'' = ''j***@icloud.com''" by code_simp
  note m1 = identifier_mask [of "''AppleID''" emptyHeap 0 "''jane.doe@icloud.com''", THEN conjunct1, rule_format, OF a]
  note m2 = identifier_mask [of "''email''" emptyHeap 5 "''alice''", THEN conjunct2, THEN conjunct1, rule_format, OF b]
  note m3 = identifier_mask [of "''email''" emptyHeap 5 "''alice''", THEN conjunct2, THEN conjunct2, rule_format, OF c]
  from a m1 d b m2 c m3 show ?thesis by (intro conjI)
qed

end
